theory Spec2Isabelle
  imports Complex_Main "HOL-Library.Word"
begin

section \<open>Audio utilities: numbers, arrays and errors\<close>

text \<open>
  The module under verification is the audio helper file of the live session
  (\<^verbatim>\<open>base64ToUint8Array\<close>, \<^verbatim>\<open>arrayBufferToBase64\<close>, \<^verbatim>\<open>downsampleBuffer\<close>,
  \<^verbatim>\<open>createPcmBlob\<close>, \<^verbatim>\<open>decodeAudioData\<close>).

  Conventions of the embedding:
  \<^item> a finite JavaScript number is an exact rational (\<^typ>\<open>rat\<close>); the rounding error of
    IEEE double arithmetic and of storing into a \<^verbatim>\<open>Float32Array\<close> is not modelled, and
    a \<^verbatim>\<open>Float32Array\<close> handed to the module holds finite samples only;
  \<^item> sample rates and channel counts are natural numbers (0 included);
  \<^item> an \<^verbatim>\<open>Int16Array\<close> is a list of 16-bit words, a \<^verbatim>\<open>Uint8Array\<close> a list of
    8-bit words, a string a list of UTF-16 code units (16-bit words);
  \<^item> an exception, or the rejection of the promise of an \<^verbatim>\<open>async\<close> function, is the
    left summand of the result.
\<close>

datatype error = RangeError | InvalidCharacterError | CreateBufferError | IndexSizeError

text \<open>
  The non-finite numbers appear in \<^verbatim>\<open>decodeAudioData\<close> only: \<^verbatim>\<open>length / 0\<close> is
  \<^verbatim>\<open>Infinity\<close> or \<^verbatim>\<open>NaN\<close>, and \<^verbatim>\<open>undefined / 32768.0\<close> is \<^verbatim>\<open>NaN\<close>.
\<close>

datatype js_number = Num rat | Infinity | NaN

text \<open>\<^verbatim>\<open>Math.round\<close>: the nearest integer, a tie going up.\<close>

definition js_round :: "rat \<Rightarrow> int" where
  "js_round x = \<lfloor>x + 1 / 2\<rfloor>"

text \<open>
  The integer part of a number (rounding towards zero), as taken when a number is stored
  into an integer typed array or passed for an integer parameter of a platform interface.
\<close>

definition js_trunc :: "rat \<Rightarrow> int" where
  "js_trunc x = (if x < 0 then \<lceil>x\<rceil> else \<lfloor>x\<rfloor>)"

type_synonym js_string = "16 word list"

definition js_string_of :: "string \<Rightarrow> js_string" where
  "js_string_of s = map of_char s"

section \<open>The platform functions btoa and atob\<close>

text \<open>
  Modelled from the spec: \<^verbatim>\<open>btoa\<close> and \<^verbatim>\<open>atob\<close> are built into the browser and have no
  source in the repository. The specification describes them as the standard 64-symbol
  alphabet encoding applied to raw bytes, without line wrapping and padded to a multiple
  of four characters; the definitions below follow that description, in the form the
  platform standard gives it (forgiving base64): three bytes become four 6-bit groups,
  \<^verbatim>\<open>=\<close> (code 61) pads, and the decoder skips ASCII whitespace, accepts missing padding and
  rejects a length of 1 modulo 4 and every character outside the alphabet.
\<close>

definition alphabet :: js_string where
  "alphabet = js_string_of ''ABCDEFGHIJKLMNOPQRSTUVWXYZabcdefghijklmnopqrstuvwxyz0123456789+/''"

fun sextets :: "8 word list \<Rightarrow> 8 word list" where
  "sextets (a # b # c # rest) =
     [drop_bit 2 a,
      or (push_bit 4 (take_bit 2 a)) (drop_bit 4 b),
      or (push_bit 2 (take_bit 4 b)) (drop_bit 6 c),
      take_bit 6 c] @ sextets rest"
| "sextets [a, b] =
     [drop_bit 2 a,
      or (push_bit 4 (take_bit 2 a)) (drop_bit 4 b),
      push_bit 2 (take_bit 4 b)]"
| "sextets [a] = [drop_bit 2 a, push_bit 4 (take_bit 2 a)]"
| "sextets [] = []"

definition forgiving_base64_encode :: "8 word list \<Rightarrow> js_string" where
  "forgiving_base64_encode bytes =
     map (\<lambda>s. alphabet ! unat s) (sextets bytes) @
     replicate ((3 - length bytes mod 3) mod 3) 61"

text \<open>\<^verbatim>\<open>btoa\<close> throws on a character above U+00FF and encodes the characters as bytes.\<close>

definition btoa :: "js_string \<Rightarrow> error + js_string" where
  "btoa str =
     (if list_ex (\<lambda>c. 255 < c) str then Inl InvalidCharacterError
      else Inr (forgiving_base64_encode (map ucast str)))"

fun index_of :: "'a \<Rightarrow> 'a list \<Rightarrow> nat option" where
  "index_of x [] = None"
| "index_of x (y # ys) = (if x = y then Some 0 else map_option Suc (index_of x ys))"

definition ascii_whitespace :: "16 word \<Rightarrow> bool" where
  "ascii_whitespace c \<longleftrightarrow> c = 9 \<or> c = 10 \<or> c = 12 \<or> c = 13 \<or> c = 32"

text \<open>
  When the length is a multiple of four, one or two \<^verbatim>\<open>=\<close> at the end are removed.
\<close>

definition strip_padding :: "js_string \<Rightarrow> js_string" where
  "strip_padding str =
     (if length str mod 4 = 0 then
        (case rev str of
           c1 # c2 # r \<Rightarrow>
             if c1 = 61 \<and> c2 = 61 then rev r
             else if c1 = 61 then rev (c2 # r)
             else str
         | _ \<Rightarrow> str)
      else str)"

text \<open>
  Four 6-bit groups give three bytes; of a rest of three groups (18 bits) the last two bits
  are dropped, of a rest of two groups (12 bits) the last four.
\<close>

fun octets :: "8 word list \<Rightarrow> 8 word list" where
  "octets (s0 # s1 # s2 # s3 # rest) =
     [or (push_bit 2 s0) (drop_bit 4 s1),
      or (push_bit 4 s1) (drop_bit 2 s2),
      or (push_bit 6 s2) s3] @ octets rest"
| "octets [s0, s1, s2] =
     [or (push_bit 2 s0) (drop_bit 4 s1),
      or (push_bit 4 s1) (drop_bit 2 s2)]"
| "octets [s0, s1] = [or (push_bit 2 s0) (drop_bit 4 s1)]"
| "octets [s0] = []"
| "octets [] = []"

fun those_list :: "'a option list \<Rightarrow> 'a list option" where
  "those_list [] = Some []"
| "those_list (None # xs) = None"
| "those_list (Some x # xs) = map_option ((#) x) (those_list xs)"

definition forgiving_base64_decode :: "js_string \<Rightarrow> 8 word list option" where
  "forgiving_base64_decode input =
     (let str = strip_padding (filter (\<lambda>c. \<not> ascii_whitespace c) input)
      in if length str mod 4 = 1 then None
         else map_option (octets \<circ> map of_nat) (those_list (map (\<lambda>c. index_of c alphabet) str)))"

text \<open>\<^verbatim>\<open>atob\<close> returns the decoded bytes as a string of characters up to U+00FF.\<close>

definition atob :: "js_string \<Rightarrow> error + js_string" where
  "atob str =
     (case forgiving_base64_decode str of
        None \<Rightarrow> Inl InvalidCharacterError
      | Some bytes \<Rightarrow> Inr (map ucast bytes))"

section \<open>base64ToUint8Array and arrayBufferToBase64\<close>

text \<open>
  \<^verbatim>\<open>base64ToUint8Array\<close> stores \<^verbatim>\<open>binaryString.charCodeAt(i)\<close> at every index \<open>i\<close> of a
  new \<^verbatim>\<open>Uint8Array\<close> of the string's length; the store keeps the low eight bits.
\<close>

definition base64ToUint8Array :: "js_string \<Rightarrow> error + 8 word list" where
  "base64ToUint8Array base64 =
     (case atob base64 of
        Inl e \<Rightarrow> Inl e
      | Inr binaryString \<Rightarrow> Inr (map ucast binaryString))"

text \<open>
  \<^verbatim>\<open>arrayBufferToBase64\<close> appends \<^verbatim>\<open>String.fromCharCode(bytes[i])\<close> to the string
  \<^verbatim>\<open>binary\<close>, byte after byte, and returns \<^verbatim>\<open>btoa(binary)\<close>.
\<close>

definition arrayBufferToBase64 :: "8 word list \<Rightarrow> error + js_string" where
  "arrayBufferToBase64 buffer = btoa (foldl (\<lambda>binary b. binary @ [ucast b]) [] buffer)"

section \<open>downsampleBuffer\<close>

text \<open>
  The inner \<^verbatim>\<open>for\<close> loop of \<^verbatim>\<open>downsampleBuffer\<close>:
  \<^verbatim>\<open>for (let i = offsetBuffer; i < nextOffsetBuffer && i < buffer.length; i++)
    { accum += buffer[i]; count++; }\<close>
  It returns the final \<^verbatim>\<open>accum\<close> and \<^verbatim>\<open>count\<close>.
\<close>

function window_sum :: "rat list \<Rightarrow> nat \<Rightarrow> nat \<Rightarrow> rat \<Rightarrow> nat \<Rightarrow> rat \<times> nat" where
  "window_sum buffer nextOffsetBuffer i accum count =
     (if i < nextOffsetBuffer \<and> i < length buffer
      then window_sum buffer nextOffsetBuffer (Suc i) (accum + buffer ! i) (Suc count)
      else (accum, count))"
  by pat_completeness auto
termination
  by (relation "measure (\<lambda>(buffer, n, i, a, c). length buffer - i)") auto

declare window_sum.simps [simp del]

text \<open>
  The state of the \<^verbatim>\<open>while\<close> loop: the output array and the two offsets. The offsets
  are values of \<^verbatim>\<open>Math.round\<close> at non-negative arguments, hence natural numbers.
\<close>

record downsample_state =
  result :: "rat list"
  offsetResult :: nat
  offsetBuffer :: nat

text \<open>
  One iteration of the \<^verbatim>\<open>while\<close> loop. The store \<^verbatim>\<open>result[offsetResult] = ...\<close> into a
  typed array leaves the array unchanged when the index is out of range, as list update
  does.
\<close>

definition loop_body :: "rat list \<Rightarrow> rat \<Rightarrow> downsample_state \<Rightarrow> downsample_state" where
  "loop_body buffer sampleRatio st =
     (let nextOffsetBuffer = nat (js_round (of_nat (offsetResult st + 1) * sampleRatio));
          (accum, count) = window_sum buffer nextOffsetBuffer (offsetBuffer st) 0 0
      in \<lparr> result = (result st)[offsetResult st := (if count > 0 then accum / of_nat count else 0)],
           offsetResult = offsetResult st + 1,
           offsetBuffer = nextOffsetBuffer \<rparr>)"

function downsample_loop :: "rat list \<Rightarrow> rat \<Rightarrow> nat \<Rightarrow> downsample_state \<Rightarrow> downsample_state" where
  "downsample_loop buffer sampleRatio newLength st =
     (if offsetResult st < newLength
      then downsample_loop buffer sampleRatio newLength (loop_body buffer sampleRatio st)
      else st)"
  by pat_completeness auto
termination
  by (relation "measure (\<lambda>(buffer, r, n, st). n - offsetResult st)")
     (auto simp: loop_body_def Let_def split: prod.splits)

declare downsample_loop.simps [simp del]

text \<open>
  \<^verbatim>\<open>downsampleBuffer\<close>. With distinct rates one of which is 0 the source computes with
  \<^verbatim>\<open>Infinity\<close> and \<^verbatim>\<open>NaN\<close>; these cases are written out:
  \<^item> \<^verbatim>\<open>outputSampleRate = 0\<close>: the ratio is \<^verbatim>\<open>Infinity\<close>, \<^verbatim>\<open>newLength\<close> is
    \<^verbatim>\<open>Math.round(length / Infinity) = 0\<close>, the loop does not run;
  \<^item> \<^verbatim>\<open>inputSampleRate = 0\<close>: the ratio is 0, \<^verbatim>\<open>length / 0\<close> is \<^verbatim>\<open>Infinity\<close> and
    \<^verbatim>\<open>new Float32Array(Infinity)\<close> throws a RangeError, unless the input is empty
    (\<^verbatim>\<open>0 / 0\<close> is \<^verbatim>\<open>NaN\<close>, and \<^verbatim>\<open>new Float32Array(NaN)\<close> is the empty array).
\<close>

definition downsampleBuffer :: "rat list \<Rightarrow> nat \<Rightarrow> nat \<Rightarrow> error + rat list" where
  "downsampleBuffer buffer inputSampleRate outputSampleRate =
     (if inputSampleRate = outputSampleRate then Inr buffer
      else if outputSampleRate = 0 then Inr []
      else if inputSampleRate = 0 then (if buffer = [] then Inr [] else Inl RangeError)
      else
        let sampleRatio = of_nat inputSampleRate / of_nat outputSampleRate;
            newLength = nat (js_round (of_nat (length buffer) / sampleRatio));
            st = downsample_loop buffer sampleRatio newLength
                   \<lparr> result = replicate newLength 0, offsetResult = 0, offsetBuffer = 0 \<rparr>
        in Inr (result st))"

section \<open>createPcmBlob\<close>

text \<open>
  The body of the conversion loop: the sample is clamped to \<open>[-1, 1]\<close>, scaled by
  \<^verbatim>\<open>0x8000\<close> when negative and by \<^verbatim>\<open>0x7FFF\<close> otherwise, and stored into an
  \<^verbatim>\<open>Int16Array\<close>: the store takes the integer part and keeps its low sixteen bits.
\<close>

definition quantize :: "rat \<Rightarrow> 16 word" where
  "quantize x =
     (let s = max (- 1) (min 1 x)
      in word_of_int (js_trunc (if s < 0 then s * 32768 else s * 32767)))"

text \<open>The two bytes of a 16-bit sample in the buffer of the array, low byte first.\<close>

definition int16_bytes :: "16 word \<Rightarrow> 8 word list" where
  "int16_bytes w = [ucast w, ucast (drop_bit 8 w)]"

record blob =
  data :: js_string
  mimeType :: js_string

text \<open>
  \<^verbatim>\<open>createPcmBlob\<close>: downsample to the target rate 16000, convert every sample, encode
  the bytes of the \<^verbatim>\<open>Int16Array\<close>.
\<close>

definition createPcmBlob :: "rat list \<Rightarrow> nat \<Rightarrow> error + blob" where
  "createPcmBlob samples inputSampleRate =
     (case downsampleBuffer samples inputSampleRate 16000 of
        Inl e \<Rightarrow> Inl e
      | Inr downsampledData \<Rightarrow>
          let int16 = map quantize downsampledData
          in case arrayBufferToBase64 (concat (map int16_bytes int16)) of
               Inl e \<Rightarrow> Inl e
             | Inr encoded \<Rightarrow>
                 Inr \<lparr> data = encoded, mimeType = js_string_of ''audio/pcm;rate=16000'' \<rparr>)"

section \<open>decodeAudioData\<close>

text \<open>
  \<^verbatim>\<open>new Int16Array(data.buffer)\<close>: a view of the bytes as 16-bit integers, low byte
  first (the byte order of every platform the application runs on). The constructor
  throws a RangeError when the byte length is odd. The argument of the model is the
  content of \<^verbatim>\<open>data.buffer\<close>, which for an array made by \<^verbatim>\<open>base64ToUint8Array\<close> is the
  array itself.
\<close>

fun int16_words :: "8 word list \<Rightarrow> 16 word list" where
  "int16_words (lo # hi # rest) = or (ucast lo) (push_bit 8 (ucast hi)) # int16_words rest"
| "int16_words _ = []"

definition new_Int16Array :: "8 word list \<Rightarrow> error + 16 word list" where
  "new_Int16Array buffer =
     (if length buffer mod 2 \<noteq> 0 then Inl RangeError else Inr (int16_words buffer))"

text \<open>The quotient \<^verbatim>\<open>dataInt16.length / numChannels\<close> of two natural numbers.\<close>

definition js_divide :: "nat \<Rightarrow> nat \<Rightarrow> js_number" where
  "js_divide a b =
     (if b = 0 then (if a = 0 then NaN else Infinity) else Num (of_nat a / of_nat b))"

text \<open>
  The \<^verbatim>\<open>length\<close> parameter of \<^verbatim>\<open>createBuffer\<close> is an \<^verbatim>\<open>unsigned long\<close>: the platform
  takes the integer part of the number modulo \<open>2\<^sup>3\<^sup>2\<close>, and 0 for
  \<^verbatim>\<open>NaN\<close> and \<^verbatim>\<open>Infinity\<close>.
\<close>

fun to_unsigned_long :: "js_number \<Rightarrow> nat" where
  "to_unsigned_long (Num x) = nat (js_trunc x mod 2 ^ 32)"
| "to_unsigned_long Infinity = 0"
| "to_unsigned_long NaN = 0"

record audio_buffer =
  sampleRate :: nat
  channels :: "js_number list list"

text \<open>
  The audio context is a parameter: it says for which channel counts, lengths and rates
  the platform makes a buffer. A buffer it makes holds silence in every channel.
\<close>

type_synonym audio_context = "nat \<Rightarrow> nat \<Rightarrow> nat \<Rightarrow> bool"

definition createBuffer :: "audio_context \<Rightarrow> nat \<Rightarrow> nat \<Rightarrow> nat \<Rightarrow> error + audio_buffer" where
  "createBuffer ctx numberOfChannels len rate =
     (if ctx numberOfChannels len rate
      then Inr \<lparr> sampleRate = rate, channels = replicate numberOfChannels (replicate len (Num 0)) \<rparr>
      else Inl CreateBufferError)"

text \<open>
  \<^verbatim>\<open>dataInt16[k] / 32768.0\<close>: a read past the end of the array is \<^verbatim>\<open>undefined\<close>, and
  the quotient then \<^verbatim>\<open>NaN\<close>.
\<close>

definition int16_over_32768 :: "16 word list \<Rightarrow> nat \<Rightarrow> js_number" where
  "int16_over_32768 dataInt16 k =
     (if k < length dataInt16 then Num (of_int (sint (dataInt16 ! k)) / 32768) else NaN)"

text \<open>
  The inner loop \<^verbatim>\<open>for (let i = 0; i < frameCount; i++)\<close>, where \<^verbatim>\<open>frameCount\<close> is a
  quotient and need not be an integer. The store into \<^verbatim>\<open>channelData\<close> does nothing at an
  index past the end of the array, as list update does.
\<close>

function decode_frames ::
  "16 word list \<Rightarrow> nat \<Rightarrow> nat \<Rightarrow> rat \<Rightarrow> nat \<Rightarrow> js_number list \<Rightarrow> js_number list" where
  "decode_frames dataInt16 numChannels channel frameCount i channelData =
     (if of_nat i < frameCount
      then decode_frames dataInt16 numChannels channel frameCount (Suc i)
             (channelData[i := int16_over_32768 dataInt16 (i * numChannels + channel)])
      else channelData)"
  by pat_completeness auto
termination
proof (relation "measure (\<lambda>(d, n, c, frameCount, i, cd). nat \<lceil>frameCount\<rceil> - i)")
  show "wf (measure (\<lambda>(d, n, c, frameCount, i, cd). nat \<lceil>frameCount\<rceil> - i))"
    by simp
next
  fix dataInt16 :: "16 word list" and numChannels channel :: nat and frameCount :: rat
    and i :: nat and channelData :: "js_number list"
  assume "of_nat i < frameCount"
  then have "int i < \<lceil>frameCount\<rceil>"
    by (simp add: less_ceiling_iff)
  then show "((dataInt16, numChannels, channel, frameCount, Suc i,
        channelData[i := int16_over_32768 dataInt16 (i * numChannels + channel)]),
       (dataInt16, numChannels, channel, frameCount, i, channelData))
      \<in> measure (\<lambda>(d, n, c, frameCount, i, cd). nat \<lceil>frameCount\<rceil> - i)"
    by simp
qed

declare decode_frames.simps [simp del]

text \<open>
  The outer loop over the channels. \<^verbatim>\<open>getChannelData\<close> throws an IndexSizeError for a
  channel the buffer does not have.
\<close>

function decode_channels ::
  "16 word list \<Rightarrow> nat \<Rightarrow> rat \<Rightarrow> nat \<Rightarrow> audio_buffer \<Rightarrow> error + audio_buffer" where
  "decode_channels dataInt16 numChannels frameCount channel buffer =
     (if channel < numChannels then
        (if channel < length (channels buffer) then
           decode_channels dataInt16 numChannels frameCount (Suc channel)
             (buffer \<lparr> channels := (channels buffer)
                [channel := decode_frames dataInt16 numChannels channel frameCount 0
                              (channels buffer ! channel)] \<rparr>)
         else Inl IndexSizeError)
      else Inr buffer)"
  by pat_completeness auto
termination
  by (relation "measure (\<lambda>(d, n, f, channel, b). n - channel)") auto

declare decode_channels.simps [simp del]

text \<open>
  \<^verbatim>\<open>decodeAudioData\<close>. The quotient \<^verbatim>\<open>frameCount\<close> is not finite only when
  \<^verbatim>\<open>numChannels\<close> is 0, and then the loop over the channels makes no iteration.
\<close>

definition decodeAudioData ::
  "8 word list \<Rightarrow> audio_context \<Rightarrow> nat \<Rightarrow> nat \<Rightarrow> error + audio_buffer" where
  "decodeAudioData bytes ctx rate numChannels =
     (case new_Int16Array bytes of
        Inl e \<Rightarrow> Inl e
      | Inr dataInt16 \<Rightarrow>
          let frameCount = js_divide (length dataInt16) numChannels
          in case createBuffer ctx numChannels (to_unsigned_long frameCount) rate of
               Inl e \<Rightarrow> Inl e
             | Inr buffer \<Rightarrow>
                 (case frameCount of
                    Num fc \<Rightarrow> decode_channels dataInt16 numChannels fc 0 buffer
                  | _ \<Rightarrow> Inr buffer))"

text \<open>A platform that makes every buffer asked for.\<close>

definition unlimited_context :: audio_context where
  "unlimited_context numberOfChannels len rate = True"


section \<open>The windows of the downsampler, as the specification describes them\<close>




text \<open>
  The frames of one channel as the specification describes them: frame \<open>i\<close> of channel
  \<open>c\<close> is sample \<open>i * numChannels + c\<close> divided by 32768.
\<close>

definition decoded_frames :: "16 word list \<Rightarrow> nat \<Rightarrow> nat \<Rightarrow> nat \<Rightarrow> js_number list" where
  "decoded_frames d numChannels len c =
     map (\<lambda>i. Num (of_int (sint (d ! (i * numChannels + c))) / 32768)) [0..<len]"

section \<open>Properties of downsampleBuffer\<close>

lemma js_round_0 [simp]: "js_round 0 = 0"
  by (simp add: js_round_def floor_eq_iff)







lemma length_result_loop_body [simp]:
  "length (result (loop_body buffer r st)) = length (result st)"
  by (simp add: loop_body_def Let_def split: prod.splits)

lemma length_result_downsample_loop [simp]:
  "length (result (downsample_loop buffer r n st)) = length (result st)"
proof (induction buffer r n st rule: downsample_loop.induct)
  case (1 buffer r n st)
  then show ?case
    by (subst downsample_loop.simps) simp
qed




text \<open>
  Claim C9. With equal input and output rate \<^verbatim>\<open>downsampleBuffer\<close> returns its input
  unchanged, for every rate and every sequence of samples.
\<close>

theorem downsampleBuffer_same_rate:
  "downsampleBuffer x r r = Inr x"
  by (simp add: downsampleBuffer_def)

















section \<open>The base64 round trip\<close>

lemma shift_back:
  "\<not> n < 2 \<Longrightarrow> Suc (Suc (n - 2)) = n"
  "\<not> n < 4 \<Longrightarrow> 4 + (n - 4) = n"
  "\<not> n < 6 \<Longrightarrow> 6 + (n - 6) = n"
  by arith+

lemma octet_1: "or (push_bit 2 (drop_bit 2 a)) (drop_bit 4 (or (push_bit 4 (take_bit 2 a)) (drop_bit 4 b))) = (a :: 8 word)"
proof (rule bit_word_eqI)
  fix n assume "n < LENGTH(8)"
  then show "bit (or (push_bit 2 (drop_bit 2 a)) (drop_bit 4 (or (push_bit 4 (take_bit 2 a)) (drop_bit 4 b)))) n = bit a n"
    by (cases "n < 2") (auto simp: bit_simps shift_back)
qed

lemma octet_2: "or (push_bit 4 (or (push_bit 4 (take_bit 2 a)) (drop_bit 4 b)))
     (drop_bit 2 (or (push_bit 2 (take_bit 4 b)) (drop_bit 6 c))) = (b :: 8 word)"
proof (rule bit_word_eqI)
  fix n assume "n < LENGTH(8)"
  then show "bit (or (push_bit 4 (or (push_bit 4 (take_bit 2 a)) (drop_bit 4 b)))
     (drop_bit 2 (or (push_bit 2 (take_bit 4 b)) (drop_bit 6 c)))) n = bit b n"
    by (cases "n < 4") (auto simp: bit_simps shift_back)
qed

lemma octet_3: "or (push_bit 6 (or (push_bit 2 (take_bit 4 b)) (drop_bit 6 c))) (take_bit 6 c) = (c :: 8 word)"
proof (rule bit_word_eqI)
  fix n assume "n < LENGTH(8)"
  then show "bit (or (push_bit 6 (or (push_bit 2 (take_bit 4 b)) (drop_bit 6 c))) (take_bit 6 c)) n = bit c n"
    by (cases "n < 6") (auto simp: bit_simps shift_back)
qed

lemma octet_2_rest: "or (push_bit 4 (or (push_bit 4 (take_bit 2 a)) (drop_bit 4 b)))
     (drop_bit 2 (push_bit 2 (take_bit 4 b))) = (b :: 8 word)"
proof (rule bit_word_eqI)
  fix n assume "n < LENGTH(8)"
  then show "bit (or (push_bit 4 (or (push_bit 4 (take_bit 2 a)) (drop_bit 4 b)))
     (drop_bit 2 (push_bit 2 (take_bit 4 b)))) n = bit b n"
    by (cases "n < 4") (auto simp: bit_simps shift_back)
qed

lemma octet_1_rest: "or (push_bit 2 (drop_bit 2 a)) (drop_bit 4 (push_bit 4 (take_bit 2 a))) = (a :: 8 word)"
proof (rule bit_word_eqI)
  fix n assume "n < LENGTH(8)"
  then show "bit (or (push_bit 2 (drop_bit 2 a)) (drop_bit 4 (push_bit 4 (take_bit 2 a)))) n = bit a n"
    by (cases "n < 2") (auto simp: bit_simps shift_back)
qed

lemma unat_lt_64:
  assumes "\<And>n. bit w n \<Longrightarrow> n < 6"
  shows "unat (w :: 8 word) < 64"
proof -
  have "w = take_bit 6 w"
    using assms by (intro bit_word_eqI) (auto simp: bit_simps not_less)
  then have "unat w = take_bit 6 (unat w)"
    by (metis unsigned_take_bit_eq)
  also have "\<dots> < 2 ^ 6"
    by (rule take_bit_nat_less_exp)
  finally show ?thesis by simp
qed

lemma sextet_bounds:
  "unat (drop_bit 2 (a :: 8 word)) < 64"
  "unat (or (push_bit 4 (take_bit 2 a)) (drop_bit 4 (b :: 8 word))) < 64"
  "unat (or (push_bit 2 (take_bit 4 b)) (drop_bit 6 (c :: 8 word))) < 64"
  "unat (take_bit 6 c) < 64"
  "unat (push_bit 2 (take_bit 4 b)) < 64"
  "unat (push_bit 4 (take_bit 2 a)) < 64"
  by (rule unat_lt_64; auto simp: bit_simps dest: bit_imp_le_length)+

lemma ucast_byte_char: "ucast (ucast (b :: 8 word) :: 16 word) = b"
  by (rule bit_word_eqI) (auto simp: bit_simps)

lemma char_of_byte_le: "(ucast (b :: 8 word) :: 16 word) \<le> 255"
proof -
  have lt: "unat b < 256" using unsigned_less [of b] by simp
  then have "unat (ucast b :: 16 word) = unat b"
    by (simp add: unsigned_ucast_eq take_bit_nat_eq_self)
  then show ?thesis using lt by (simp add: word_le_nat_alt)
qed

lemma int16_of_bytes: "or (ucast (ucast (w :: 16 word) :: 8 word) :: 16 word) (push_bit 8 (ucast (ucast (drop_bit 8 w) :: 8 word) :: 16 word)) = w"
proof (rule bit_word_eqI)
  fix n assume "n < LENGTH(16)"
  then show "bit (or (ucast (ucast (w :: 16 word) :: 8 word) :: 16 word) (push_bit 8 (ucast (ucast (drop_bit 8 w) :: 8 word) :: 16 word))) n = bit w n"
    by (cases "n < 8") (auto simp: bit_simps)
qed

lemma octets_sextets: "octets (sextets bs) = bs"
  by (induction bs rule: sextets.induct)
     (simp_all only: sextets.simps octets.simps append.simps octet_1 octet_2 octet_3 octet_2_rest octet_1_rest)

lemma sextets_lt: "s \<in> set (sextets bs) \<Longrightarrow> unat s < 64"
  by (induction bs rule: sextets.induct) (auto simp: sextet_bounds)

lemma length_sextets_pad:
  "(length (sextets bs) + (3 - length bs mod 3) mod 3) mod 4 = 0"
  by (induction bs rule: sextets.induct) simp_all

lemma index_of_nth:
  "distinct xs \<Longrightarrow> n < length xs \<Longrightarrow> index_of (xs ! n) xs = Some n"
proof (induction xs arbitrary: n)
  case Nil
  then show ?case by simp
next
  case (Cons x xs)
  then show ?case by (cases n) auto
qed

lemma length_alphabet: "length alphabet = 64"
  by (simp add: alphabet_def js_string_of_def)

lemma distinct_alphabet: "distinct alphabet"
  by (simp add: alphabet_def js_string_of_def)

lemma alphabet_not_pad: "c \<in> set alphabet \<Longrightarrow> c \<noteq> 61"
  by (auto simp: alphabet_def js_string_of_def)

lemma alphabet_not_ws: "c \<in> set alphabet \<Longrightarrow> \<not> ascii_whitespace c"
  by (auto simp: alphabet_def js_string_of_def ascii_whitespace_def)

lemma those_list_map:
  "(\<And>x. x \<in> set xs \<Longrightarrow> f x = Some (g x)) \<Longrightarrow> those_list (map f xs) = Some (map g xs)"
  by (induction xs) simp_all

lemma strip_padding_encoded:
  assumes "set body \<subseteq> set alphabet" "p \<le> 2" "(length body + p) mod 4 = 0"
  shows "strip_padding (body @ replicate p 61) = body"
proof -
  consider "p = 0" | "p = 1" | "p = 2" using assms(2) by arith
  then show ?thesis
  proof cases
    case 1
    show ?thesis
    proof (cases "rev body")
      case Nil
      then show ?thesis by (simp add: strip_padding_def 1)
    next
      case (Cons c1 r)
      then have "c1 \<in> set alphabet" using assms(1)
        by (metis list.set_intros(1) set_rev subsetD)
      then have "c1 \<noteq> 61" by (rule alphabet_not_pad)
      then show ?thesis
        using Cons by (simp add: strip_padding_def 1 split: list.splits)
    qed
  next
    case 2
    then have "body \<noteq> []" using assms(3) by auto
    then obtain c2 r where r: "rev body = c2 # r"
      by (cases "rev body") auto
    then have "c2 \<in> set alphabet" using assms(1)
      by (metis list.set_intros(1) set_rev subsetD)
    then have "c2 \<noteq> 61" by (rule alphabet_not_pad)
    moreover have "rev (c2 # r) = body"
      using r by (metis rev_rev_ident)
    moreover have "rev (body @ replicate p 61) = 61 # c2 # r"
      using r by (simp add: 2)
    moreover have "length (body @ replicate p 61) mod 4 = 0"
      using assms(3) by simp
    ultimately show ?thesis
      unfolding strip_padding_def by (simp only: list.case if_True if_False simp_thms)
  next
    case 3
    then have "replicate p (61 :: 16 word) = [61, 61]"
      by (simp add: numeral_2_eq_2)
    then show ?thesis
      using assms(3) by (simp add: strip_padding_def 3 split: list.splits)
  qed
qed

lemma forgiving_base64_roundtrip:
  "forgiving_base64_decode (forgiving_base64_encode bs) = Some bs"
proof -
  define body where "body = map (\<lambda>s. alphabet ! unat s) (sextets bs)"
  define p where "p = (3 - length bs mod 3) mod 3"
  have enc: "forgiving_base64_encode bs = body @ replicate p 61"
    by (simp add: forgiving_base64_encode_def body_def p_def)
  have body: "set body \<subseteq> set alphabet"
    using sextets_lt [of _ bs] by (auto simp: body_def length_alphabet)
  have p: "p \<le> 2" unfolding p_def by arith
  have len: "(length body + p) mod 4 = 0"
    using length_sextets_pad [of bs] by (simp add: body_def p_def)
  have "\<not> ascii_whitespace c" if "c \<in> set (body @ replicate p 61)" for c
  proof (cases "c \<in> set body")
    case True
    then show ?thesis using body alphabet_not_ws by blast
  next
    case False
    then have "c = 61" using that by auto
    then show ?thesis by (simp add: ascii_whitespace_def)
  qed
  then have "filter (\<lambda>c. \<not> ascii_whitespace c) (body @ replicate p 61) = body @ replicate p 61"
    by (simp only: filter_id_conv) blast
  then have stripped: "strip_padding (filter (\<lambda>c. \<not> ascii_whitespace c) (body @ replicate p 61)) = body"
    by (simp add: strip_padding_encoded [OF body p len])
  have not1: "length body mod 4 \<noteq> 1"
    using p len by arith
  have idx: "those_list (map (\<lambda>c. index_of c alphabet) body) = Some (map unat (sextets bs))"
    unfolding body_def map_map
    by (rule those_list_map) (simp add: index_of_nth distinct_alphabet length_alphabet sextets_lt)
  have "forgiving_base64_decode (forgiving_base64_encode bs) =
      (if length body mod 4 = 1 then None
       else map_option (octets \<circ> map of_nat) (those_list (map (\<lambda>c. index_of c alphabet) body)))"
    unfolding forgiving_base64_decode_def enc stripped Let_def by (rule refl)
  then show ?thesis
    using not1 by (simp add: idx comp_def octets_sextets)
qed

lemma foldl_append_map: "foldl (\<lambda>binary b. binary @ [f b]) acc xs = acc @ map f xs"
  by (induction xs arbitrary: acc) simp_all

lemma arrayBufferToBase64_eq:
  "arrayBufferToBase64 b = Inr (forgiving_base64_encode b)"
proof -
  have "\<not> list_ex (\<lambda>c. 255 < c) (map ucast b :: 16 word list)"
    using char_of_byte_le by (auto simp: list_ex_iff not_less)
  then show ?thesis
    by (simp add: arrayBufferToBase64_def btoa_def foldl_append_map comp_def ucast_byte_char)
qed

lemma base64ToUint8Array_encoded:
  "base64ToUint8Array (forgiving_base64_encode b) = Inr b"
  by (simp add: base64ToUint8Array_def atob_def forgiving_base64_roundtrip comp_def ucast_byte_char)

text \<open>
  Claim C8. The two helpers form an exact round trip: every byte sequence, the empty one
  and sequences of zero bytes included, is encoded without error by
  \<^verbatim>\<open>arrayBufferToBase64\<close>, and \<^verbatim>\<open>base64ToUint8Array\<close> decodes the text back to the same
  bytes.
\<close>

theorem base64_roundtrip:
  "\<exists>t. arrayBufferToBase64 b = Inr t \<and> base64ToUint8Array t = Inr b"
  by (simp add: arrayBufferToBase64_eq base64ToUint8Array_encoded)


section \<open>Properties of decodeAudioData\<close>

lemma length_decode_frames [simp]:
  "length (decode_frames d nc c fc i cd) = length cd"
proof (induction d nc c fc i cd rule: decode_frames.induct)
  case (1 d nc c fc i cd)
  then show ?case by (subst decode_frames.simps) simp
qed

lemma decode_frames_nth:
  "k < length cd \<Longrightarrow>
   decode_frames d nc c fc i cd ! k =
     (if i \<le> k \<and> of_nat k < fc then int16_over_32768 d (k * nc + c) else cd ! k)"
proof (induction d nc c fc i cd rule: decode_frames.induct)
  case (1 d nc c fc i cd)
  show ?case
  proof (cases "of_nat i < fc")
    case True
    have s: "Suc i \<le> k \<longleftrightarrow> i \<le> k \<and> k \<noteq> i" by arith
    show ?thesis
      using True "1.IH" [OF True] "1.prems"
      by (subst decode_frames.simps) (auto simp: s nth_list_update)
  next
    case False
    have n: "\<not> (i \<le> k \<and> of_nat k < fc)"
    proof
      assume a: "i \<le> k \<and> of_nat k < fc"
      then have "(of_nat i :: rat) \<le> of_nat k" by simp
      then show False using a False by linarith
    qed
    show ?thesis
      by (subst decode_frames.simps) (simp only: False n if_False)
  qed
qed

lemma decode_channels_value:
  "length (channels buf) = nc \<Longrightarrow>
   decode_channels d nc fc ch buf =
     Inr (buf \<lparr> channels := map (\<lambda>c. if ch \<le> c then decode_frames d nc c fc 0 (channels buf ! c)
                                        else channels buf ! c) [0..<nc] \<rparr>)"
proof (induction d nc fc ch buf rule: decode_channels.induct)
  case (1 d nc fc ch buf)
  show ?case
  proof (cases "ch < nc")
    case True
    let ?buf = "buf \<lparr> channels := (channels buf)
        [ch := decode_frames d nc ch fc 0 (channels buf ! ch)] \<rparr>"
    have len: "length (channels ?buf) = nc" using "1.prems" by simp
    have s: "Suc ch \<le> c \<longleftrightarrow> ch \<le> c \<and> c \<noteq> ch" for c by arith
    have "map (\<lambda>c. if Suc ch \<le> c then decode_frames d nc c fc 0 (channels ?buf ! c)
                     else channels ?buf ! c) [0..<nc] =
          map (\<lambda>c. if ch \<le> c then decode_frames d nc c fc 0 (channels buf ! c)
                     else channels buf ! c) [0..<nc]"
      using "1.prems" True by (intro map_cong refl) (auto simp: s nth_list_update)
    then show ?thesis
      using True "1.prems" "1.IH" [OF True _ len]
      by (subst decode_channels.simps) simp
  next
    case False
    have "map (\<lambda>c. if ch \<le> c then decode_frames d nc c fc 0 (channels buf ! c)
                     else channels buf ! c) [0..<nc] = channels buf"
      using False "1.prems" by (intro nth_equalityI) auto
    then show ?thesis
      using False by (subst decode_channels.simps) simp
  qed
qed

lemma js_trunc_of_nat_div: "js_trunc (of_nat a / of_nat b) = int (a div b)"
proof -
  have "\<not> (of_nat a / of_nat b :: rat) < 0"
    by (simp add: not_less)
  then show ?thesis
    by (simp add: js_trunc_def floor_divide_of_nat_eq)
qed

lemma nat_int_mod: "nat (int m mod 2 ^ 32) = m mod 2 ^ 32"
proof -
  have "int m mod 2 ^ 32 = int (m mod 2 ^ 32)"
    by (simp add: zmod_int)
  then show ?thesis by (simp only: nat_int)
qed

lemma frame_index_lt:
  assumes "i < n div nc" "c < nc"
  shows "i * nc + c < (n :: nat)"
proof -
  have "i * nc + c < Suc i * nc" using assms(2) by simp
  also have "\<dots> \<le> (n div nc) * nc" using assms(1) by (intro mult_le_mono1) simp
  also have "\<dots> \<le> n" by simp
  finally show ?thesis .
qed

lemma length_int16_words: "length (int16_words bs) = length bs div 2"
  by (induction bs rule: int16_words.induct) simp_all

lemma decode_frames_fresh:
  assumes "len \<le> length d div nc" "c < nc"
  shows "decode_frames d nc c (of_nat (length d) / of_nat nc) 0 (replicate len (Num 0)) =
     decoded_frames d nc len c"
proof (rule nth_equalityI)
  show "length (decode_frames d nc c (of_nat (length d) / of_nat nc) 0 (replicate len (Num 0))) =
      length (decoded_frames d nc len c)"
    by (simp add: decoded_frames_def)
next
  fix k assume "k < length (decode_frames d nc c (of_nat (length d) / of_nat nc) 0 (replicate len (Num 0)))"
  then have k: "k < len" by simp
  then have kd: "k < length d div nc" using assms(1) by simp
  have nc: "0 < nc" using assms(2) by simp
  have "Suc k * nc \<le> (length d div nc) * nc" using kd by (intro mult_le_mono1) simp
  also have "\<dots> \<le> length d" by simp
  finally have "k * nc < length d" using nc by simp
  then have "(of_nat k :: rat) * of_nat nc < of_nat (length d)"
    by (metis of_nat_less_iff of_nat_mult)
  then have lt: "(of_nat k :: rat) < of_nat (length d) / of_nat nc"
    using nc by (simp add: pos_less_divide_eq)
  have idx: "k * nc + c < length d"
    by (rule frame_index_lt [OF kd assms(2)])
  show "decode_frames d nc c (of_nat (length d) / of_nat nc) 0 (replicate len (Num 0)) ! k =
      decoded_frames d nc len c ! k"
    using k lt idx by (simp add: decode_frames_nth decoded_frames_def int16_over_32768_def)
qed

lemma decodeAudioData_value:
  assumes "even (length bytes)" "0 < nc"
    and "len = (length bytes div 2 div nc) mod 2 ^ 32"
  shows "decodeAudioData bytes ctx rate nc =
     (if ctx nc len rate
      then Inr \<lparr> sampleRate = rate,
                 channels = map (decoded_frames (int16_words bytes) nc len) [0..<nc] \<rparr>
      else Inl CreateBufferError)"
proof -
  define d where "d = int16_words bytes"
  have ld: "length d = length bytes div 2" by (simp add: d_def length_int16_words)
  have new: "new_Int16Array bytes = Inr d"
    using assms(1) by (simp add: new_Int16Array_def d_def even_iff_mod_2_eq_zero)
  have fc: "js_divide (length d) nc = Num (of_nat (length d) / of_nat nc)"
    using assms(2) by (simp add: js_divide_def)
  have ul: "to_unsigned_long (Num (of_nat (length d) / of_nat nc)) = len"
    unfolding to_unsigned_long.simps js_trunc_of_nat_div nat_int_mod ld assms(3) by (rule refl)
  have le: "len \<le> length d div nc"
    by (simp add: assms(3) ld)
  show ?thesis
  proof (cases "ctx nc len rate")
    case True
    have "map (\<lambda>c. if 0 \<le> c then decode_frames d nc c (of_nat (length d) / of_nat nc) 0
                  (replicate nc (replicate len (Num 0)) ! c)
                else replicate nc (replicate len (Num 0)) ! c) [0..<nc] =
          map (decoded_frames d nc len) [0..<nc]"
      by (intro map_cong refl) (simp add: decode_frames_fresh [OF le])
    then show ?thesis
      unfolding d_def [symmetric] using True
      by (simp add: decodeAudioData_def new fc ul createBuffer_def Let_def decode_channels_value
            del: to_unsigned_long.simps)
  next
    case False
    then show ?thesis
      by (simp add: decodeAudioData_def new fc ul createBuffer_def Let_def
            del: to_unsigned_long.simps)
  qed
qed


section \<open>Quantization and the encode-decode round trip\<close>

lemma sint_word_of_int_16:
  "- 32768 \<le> z \<Longrightarrow> z \<le> 32767 \<Longrightarrow> sint (word_of_int z :: 16 word) = z"
  by (simp add: sint_sbintrunc' signed_take_bit_int_eq_self)

lemma quantize_sint:
  assumes "- 1 \<le> s" "s \<le> 1"
  shows "sint (quantize s) = (if s < 0 then \<lceil>s * 32768\<rceil> else \<lfloor>s * 32767\<rfloor>)"
proof -
  have clamp: "max (- 1) (min 1 s) = s" using assms by simp
  have q: "quantize s = word_of_int (js_trunc (if s < 0 then s * 32768 else s * 32767))"
    unfolding quantize_def Let_def clamp by (rule refl)
  show ?thesis
  proof (cases "s < 0")
    case True
    have "- 32768 \<le> s * 32768" using assms(1) by simp
    then have "(- 32768 :: rat) \<le> of_int \<lceil>s * 32768\<rceil>"
      using le_of_int_ceiling [of "s * 32768"] by linarith
    then have lo: "- 32768 \<le> \<lceil>s * 32768\<rceil>" by linarith
    have "s * 32768 \<le> 0" using True by simp
    then have "\<lceil>s * 32768\<rceil> \<le> 0" by (simp add: ceiling_le_iff)
    then have "sint (word_of_int \<lceil>s * 32768\<rceil> :: 16 word) = \<lceil>s * 32768\<rceil>"
      using lo by (intro sint_word_of_int_16) simp_all
    moreover have "s * 32768 < 0" using True by simp
    ultimately show ?thesis
      using True by (simp add: q js_trunc_def)
  next
    case False
    then have nn: "0 \<le> s * 32767" by simp
    then have lo: "0 \<le> \<lfloor>s * 32767\<rfloor>" by simp
    have "s * 32767 \<le> 32767" using assms(2) by simp
    then have "\<lfloor>s * 32767\<rfloor> \<le> 32767" by (simp add: floor_le_iff)
    then have "sint (word_of_int \<lfloor>s * 32767\<rfloor> :: 16 word) = \<lfloor>s * 32767\<rfloor>"
      using lo by (intro sint_word_of_int_16) simp_all
    moreover have "\<not> s * 32767 < 0" using nn by simp
    ultimately show ?thesis
      using False by (simp add: q js_trunc_def)
  qed
qed

lemma int16_words_bytes: "int16_words (int16_bytes w) = [w]"
  by (simp add: int16_bytes_def int16_of_bytes)

lemma createPcmBlob_single:
  "createPcmBlob [s] 16000 =
     Inr \<lparr> data = forgiving_base64_encode (int16_bytes (quantize s)),
           mimeType = js_string_of ''audio/pcm;rate=16000'' \<rparr>"
  by (simp add: createPcmBlob_def downsampleBuffer_def arrayBufferToBase64_eq)

lemma decodeAudioData_single:
  assumes "ctx 1 1 rate"
  shows "decodeAudioData (int16_bytes w) ctx rate 1 =
     Inr \<lparr> sampleRate = rate, channels = [[Num (of_int (sint w) / 32768)]] \<rparr>"
proof -
  have l: "length (int16_bytes w) = 2" by (simp add: int16_bytes_def)
  have "decodeAudioData (int16_bytes w) ctx rate 1 =
     (if ctx 1 1 rate
      then Inr \<lparr> sampleRate = rate,
                 channels = map (decoded_frames (int16_words (int16_bytes w)) 1 1) [0..<1] \<rparr>
      else Inl CreateBufferError)"
    by (rule decodeAudioData_value) (simp_all add: l)
  then show ?thesis
    using assms by (simp add: int16_words_bytes decoded_frames_def)
qed

lemma dequantize_bounds:
  assumes "- 1 \<le> s" "s \<le> 1" and "d = of_int (sint (quantize s)) / 32768"
  shows "\<bar>d - s\<bar> < 1 / 16384 \<and> (s \<le> 0 \<longrightarrow> \<bar>d - s\<bar> < 1 / 32768) \<and>
    (if 1 / 32767 \<le> s then 0 < d else if s \<le> - (1 / 32768) then d < 0 else d = 0)"
proof -
  define z where "z = sint (quantize s)"
  have d: "d * 32768 = of_int z" by (simp add: assms(3) z_def)
  show ?thesis
  proof (cases "s < 0")
    case True
    then have z: "z = \<lceil>s * 32768\<rceil>"
      by (simp add: z_def quantize_sint [OF assms(1,2)])
    have 1: "s * 32768 \<le> of_int z" "of_int z < s * 32768 + 1"
      unfolding z using ceiling_correct [of "s * 32768"] by linarith+
    have err: "\<bar>d - s\<bar> < 1 / 32768"
      using d 1 by linarith
    have sgn: "if s \<le> - (1 / 32768) then d < 0 else d = 0"
    proof (cases "s \<le> - (1 / 32768)")
      case True
      then have "s * 32768 \<le> of_int (- 1)" by simp
      then have "z \<le> - 1" unfolding z by (simp only: ceiling_le_iff)
      then have "(of_int z :: rat) \<le> - 1" by (metis of_int_le_iff of_int_minus of_int_1)
      then show ?thesis using True d by simp
    next
      case False
      then have "of_int (- 1) < s * 32768" by simp
      then have "- 1 < z" unfolding z by (simp only: less_ceiling_iff)
      moreover have "s * 32768 \<le> of_int 0" using \<open>s < 0\<close> by simp
      then have "z \<le> 0" unfolding z by (simp only: ceiling_le_iff)
      ultimately have "z = 0" by linarith
      then show ?thesis using False d by simp
    qed
    show ?thesis
      using True err sgn by simp
  next
    case False
    then have z: "z = \<lfloor>s * 32767\<rfloor>"
      by (simp add: z_def quantize_sint [OF assms(1,2)])
    have 1: "of_int z \<le> s * 32767" "s * 32767 < of_int z + 1"
      unfolding z using floor_correct [of "s * 32767"] by simp_all
    have err: "\<bar>d - s\<bar> < 1 / 16384" "s \<le> 0 \<Longrightarrow> \<bar>d - s\<bar> < 1 / 32768"
      using d 1 False assms(2) by linarith+
    have sgn: "if 1 / 32767 \<le> s then 0 < d else d = 0"
    proof (cases "1 / 32767 \<le> s")
      case True
      then have "of_int 1 \<le> s * 32767" by simp
      then have "1 \<le> z" unfolding z by (simp only: le_floor_iff)
      then have "(1 :: rat) \<le> of_int z" by (metis of_int_le_iff of_int_1)
      then show ?thesis using True d by simp
    next
      case False
      then have "s * 32767 < of_int 1" by simp
      then have "z < 1" unfolding z by (simp only: floor_less_iff)
      moreover have "of_int 0 \<le> s * 32767" using \<open>\<not> s < 0\<close> by simp
      then have "0 \<le> z" unfolding z by (simp only: le_floor_iff)
      ultimately have "z = 0" by linarith
      then show ?thesis using False d by simp
    qed
    have "\<not> s \<le> - (1 / 32768)" using False by simp
    then show ?thesis
      using err sgn by simp
  qed
qed


text \<open>
  Claim C4. The conversion step clamps to \<open>[-1, 1]\<close> and scales asymmetrically: 1.5 is
  encoded as 1.0 is, namely as 32767; -1.5 as -1.0 is, namely as -32768; 0.0 as 0; and
  every sample is encoded as its clamped value is. The same holds for the blobs of
  \<^verbatim>\<open>createPcmBlob\<close> at the rate 16000.
\<close>

theorem quantize_clamp_scale:
  "quantize (3 / 2) = quantize 1 \<and> sint (quantize 1) = 32767 \<and>
   quantize (- (3 / 2)) = quantize (- 1) \<and> sint (quantize (- 1)) = - 32768 \<and>
   sint (quantize 0) = 0 \<and>
   quantize x = quantize (max (- 1) (min 1 x)) \<and>
   createPcmBlob [3 / 2] 16000 = createPcmBlob [1] 16000 \<and>
   createPcmBlob [- (3 / 2)] 16000 = createPcmBlob [- 1] 16000"
proof -
  have a: "quantize (3 / 2) = quantize 1" "quantize (- (3 / 2)) = quantize (- 1)"
    by (simp_all add: quantize_def)
  have b: "sint (quantize 1) = 32767" "sint (quantize (- 1)) = - 32768" "sint (quantize 0) = 0"
    by (simp_all add: quantize_sint)
  have c: "quantize x = quantize (max (- 1) (min 1 x))"
    by (simp add: quantize_def)
  show ?thesis
    using a b c by (simp add: createPcmBlob_single)
qed

text \<open>
  Claim C1, amended. For a sample \<open>s\<close> in \<open>[-1, 1]\<close>, encoding the block \<open>[s]\<close> at rate
  16000, turning the text back into bytes and decoding them at 16000 Hz mono (on a
  platform that makes the buffer) gives one sample \<open>d\<close> less than 1/16384 away from \<open>s\<close>,
  and less than 1/32768 away when \<open>s \<le> 0\<close>; \<open>d\<close> is positive for \<open>s \<ge> 1/32767\<close>,
  negative for \<open>s \<le> -1/32768\<close> and 0 in between.
\<close>

theorem pcm_round_trip:
  assumes "- 1 \<le> s" "s \<le> 1" "ctx 1 1 16000"
  shows "\<exists>blob bytes d.
     createPcmBlob [s] 16000 = Inr blob \<and>
     base64ToUint8Array (data blob) = Inr bytes \<and>
     decodeAudioData bytes ctx 16000 1 = Inr \<lparr> sampleRate = 16000, channels = [[Num d]] \<rparr> \<and>
     \<bar>d - s\<bar> < 1 / 16384 \<and> (s \<le> 0 \<longrightarrow> \<bar>d - s\<bar> < 1 / 32768) \<and>
     (if 1 / 32767 \<le> s then 0 < d else if s \<le> - (1 / 32768) then d < 0 else d = 0)"
proof -
  define d :: rat where "d = of_int (sint (quantize s)) / 32768"
  have "decodeAudioData (int16_bytes (quantize s)) ctx 16000 1 =
      Inr \<lparr> sampleRate = 16000, channels = [[Num d]] \<rparr>"
    unfolding d_def using assms(3) by (rule decodeAudioData_single)
  then show ?thesis
    using dequantize_bounds [OF assms(1,2) d_def]
    by (simp add: createPcmBlob_single base64ToUint8Array_encoded)
qed

theorem pcm_round_trip_witness:
  "(- 1 :: rat) \<le> 1 / 2 \<and> (1 / 2 :: rat) \<le> 1 \<and>
   (- 1 :: rat) \<le> - (1 / 2) \<and> (- (1 / 2) :: rat) \<le> 1 \<and> unlimited_context 1 1 16000 \<and>
   (\<exists>blob bytes d.
     createPcmBlob [1 / 2] 16000 = Inr blob \<and>
     base64ToUint8Array (data blob) = Inr bytes \<and>
     decodeAudioData bytes unlimited_context 16000 1 =
       Inr \<lparr> sampleRate = 16000, channels = [[Num d]] \<rparr> \<and>
     \<bar>d - 1 / 2\<bar> < 1 / 16384 \<and> 0 < d) \<and>
   (\<exists>blob bytes d.
     createPcmBlob [- (1 / 2)] 16000 = Inr blob \<and>
     base64ToUint8Array (data blob) = Inr bytes \<and>
     decodeAudioData bytes unlimited_context 16000 1 =
       Inr \<lparr> sampleRate = 16000, channels = [[Num d]] \<rparr> \<and>
     \<bar>d + 1 / 2\<bar> < 1 / 32768 \<and> d < 0)"
proof -
  have "\<exists>blob bytes d.
     createPcmBlob [1 / 2] 16000 = Inr blob \<and>
     base64ToUint8Array (data blob) = Inr bytes \<and>
     decodeAudioData bytes unlimited_context 16000 1 =
       Inr \<lparr> sampleRate = 16000, channels = [[Num d]] \<rparr> \<and>
     \<bar>d - 1 / 2\<bar> < 1 / 16384 \<and> 0 < d"
    using pcm_round_trip [of "1 / 2" unlimited_context]
    by (simp add: unlimited_context_def)
  moreover have "\<exists>blob bytes d.
     createPcmBlob [- (1 / 2)] 16000 = Inr blob \<and>
     base64ToUint8Array (data blob) = Inr bytes \<and>
     decodeAudioData bytes unlimited_context 16000 1 =
       Inr \<lparr> sampleRate = 16000, channels = [[Num d]] \<rparr> \<and>
     \<bar>d + 1 / 2\<bar> < 1 / 32768 \<and> d < 0"
    using pcm_round_trip [of "- (1 / 2)" unlimited_context]
    by (simp add: unlimited_context_def) blast
  ultimately show ?thesis
    by (simp add: unlimited_context_def)
qed

lemma quantize_example: "quantize (65535 / 65536) = 32766"
  by code_simp

lemma encode_example: "forgiving_base64_encode [254, 127] = js_string_of ''/n8=''"
  by code_simp

lemma int16_bytes_example: "int16_bytes 32766 = [254, 127]"
  by code_simp

text \<open>
  Claim C1 as stated fails for positive samples, which are scaled by 32767 and divided
  by 32768: the sample 65535/65536 is encoded as 32766 and decoded as 16383/16384, which
  is 3/65536 away from it, more than 1/32768.
\<close>

theorem pcm_round_trip_counterexample:
  "createPcmBlob [65535 / 65536] 16000 =
     Inr \<lparr> data = js_string_of ''/n8='', mimeType = js_string_of ''audio/pcm;rate=16000'' \<rparr> \<and>
   base64ToUint8Array (js_string_of ''/n8='') = Inr [254, 127] \<and>
   decodeAudioData [254, 127] unlimited_context 16000 1 =
     Inr \<lparr> sampleRate = 16000, channels = [[Num (16383 / 16384)]] \<rparr> \<and>
   \<not> \<bar>16383 / 16384 - 65535 / 65536\<bar> \<le> (1 / 32768 :: rat)"
proof -
  have 1: "createPcmBlob [65535 / 65536] 16000 =
     Inr \<lparr> data = js_string_of ''/n8='', mimeType = js_string_of ''audio/pcm;rate=16000'' \<rparr>"
    by (simp only: createPcmBlob_single quantize_example int16_bytes_example encode_example)
  have 2: "base64ToUint8Array (js_string_of ''/n8='') = Inr [254, 127]"
    using base64ToUint8Array_encoded [of "[254, 127]"] by (simp only: encode_example)
  have "unlimited_context 1 1 16000" by (simp add: unlimited_context_def)
  then have "decodeAudioData (int16_bytes 32766) unlimited_context 16000 1 =
     Inr \<lparr> sampleRate = 16000, channels = [[Num (of_int (sint (32766 :: 16 word)) / 32768)]] \<rparr>"
    by (rule decodeAudioData_single)
  then have 3: "decodeAudioData [254, 127] unlimited_context 16000 1 =
     Inr \<lparr> sampleRate = 16000, channels = [[Num (16383 / 16384)]] \<rparr>"
    by (simp add: int16_bytes_example)
  have 4: "\<not> \<bar>16383 / 16384 - 65535 / 65536\<bar> \<le> (1 / 32768 :: rat)"
    by simp
  show ?thesis using 1 2 3 4 by (intro conjI)
qed

section \<open>Frames, truncation and failure of decodeAudioData\<close>

text \<open>
  Claim C2. For a byte sequence of \<open>sampleCount\<close> 16-bit samples and a positive channel
  count, whether or not it divides \<open>sampleCount\<close>, \<^verbatim>\<open>decodeAudioData\<close> returns (on a
  platform that makes the buffer, and for a frame count below \<open>2 ^ 32\<close>) a buffer with
  \<open>sampleCount div numChannels\<close> frames in each channel, frame \<open>i\<close> of channel \<open>c\<close>
  being sample \<open>i * numChannels + c\<close> divided by 32768: the samples of a trailing
  incomplete frame are dropped, and that is no error.
\<close>

theorem decodeAudioData_truncates:
  assumes "even (length bytes)" "0 < numChannels"
    and "length bytes div 2 div numChannels < 2 ^ 32"
    and "ctx numChannels (length bytes div 2 div numChannels) rate"
  shows "\<exists>buf. decodeAudioData bytes ctx rate numChannels = Inr buf \<and>
     length (channels buf) = numChannels \<and>
     (\<forall>c<numChannels.
        length (channels buf ! c) = length bytes div 2 div numChannels \<and>
        (\<forall>i<length bytes div 2 div numChannels.
           channels buf ! c ! i =
             Num (of_int (sint (int16_words bytes ! (i * numChannels + c))) / 32768)))"
proof -
  define len where "len = length bytes div 2 div numChannels"
  have len: "len = (length bytes div 2 div numChannels) mod 2 ^ 32"
    using assms(3) by (simp add: len_def)
  have "decodeAudioData bytes ctx rate numChannels =
     Inr \<lparr> sampleRate = rate,
           channels = map (decoded_frames (int16_words bytes) numChannels len) [0..<numChannels] \<rparr>"
    using assms(4) by (simp add: decodeAudioData_value [OF assms(1,2) len] len_def)
  then show ?thesis
    unfolding len_def [symmetric] by (simp add: decoded_frames_def)
qed

theorem decodeAudioData_truncates_witness:
  "even (length [1, 0, 2, 0, 3, 0, 4, 0, 5, 0 :: 8 word]) \<and> (0 :: nat) < 2 \<and>
   length [1, 0, 2, 0, 3, 0, 4, 0, 5, 0 :: 8 word] div 2 div 2 < (2 :: nat) ^ 32 \<and>
   unlimited_context 2 2 24000 \<and>
   (\<exists>buf. decodeAudioData [1, 0, 2, 0, 3, 0, 4, 0, 5, 0] unlimited_context 24000 2 = Inr buf \<and>
     length (channels buf) = 2 \<and>
     length (channels buf ! 0) = 2 \<and> length (channels buf ! 1) = 2 \<and>
     channels buf ! 0 ! 0 = Num (1 / 32768) \<and> channels buf ! 1 ! 0 = Num (2 / 32768) \<and>
     channels buf ! 0 ! 1 = Num (3 / 32768) \<and> channels buf ! 1 ! 1 = Num (4 / 32768))"
proof -
  let ?bytes = "[1, 0, 2, 0, 3, 0, 4, 0, 5, 0 :: 8 word]"
  have w: "int16_words ?bytes = [1, 2, 3, 4, 5]"
    by code_simp
  have h: "even (length ?bytes)" "(0 :: nat) < 2" "length ?bytes div 2 div 2 < (2 :: nat) ^ 32"
    "unlimited_context 2 (length ?bytes div 2 div 2) 24000"
    by (simp_all add: unlimited_context_def)
  obtain buf where b: "decodeAudioData ?bytes unlimited_context 24000 2 = Inr buf"
    "length (channels buf) = 2"
    "\<forall>c<2. length (channels buf ! c) = length ?bytes div 2 div 2 \<and>
        (\<forall>i<length ?bytes div 2 div 2.
           channels buf ! c ! i = Num (of_int (sint (int16_words ?bytes ! (i * 2 + c))) / 32768))"
    using decodeAudioData_truncates [of ?bytes 2 unlimited_context 24000, OF h] by blast
  have "length (channels buf ! 0) = 2" "length (channels buf ! 1) = 2"
    "channels buf ! 0 ! 0 = Num (1 / 32768)" "channels buf ! 1 ! 0 = Num (2 / 32768)"
    "channels buf ! 0 ! 1 = Num (3 / 32768)" "channels buf ! 1 ! 1 = Num (4 / 32768)"
    using b(3) by (simp_all add: w)
  then show ?thesis
    using b(1,2) by (auto simp: unlimited_context_def)
qed






end
